theory Spec2Isabelle
  imports Complex_Main "HOL-Library.Sublist"
begin

section \<open>Python values used by the chunker\<close>

text \<open>
  The chunker is Python. Its integers are unbounded (\<open>int\<close>), its texts are
  \<open>str\<close> values, modelled as \<open>string\<close> (a list of characters; each \<open>char\<close> stands for
  one code point below 256). Every \<open>raise ValueError(msg)\<close> of the source is the value
  \<open>Inl (ValueError msg)\<close>. Boundary scores are the decimal literals 0.0, 0.1, 0.4, 0.5,
  0.6, 0.8 and 1.0 and are only ever compared with literals, so they are modelled as reals.
\<close>

datatype error = ValueError string

definition newline :: char where
  "newline = CHR 0x0A"

text \<open>\<open>str.isspace\<close> on one character, which is also what \<open>\s\<close> matches in a
  \<open>str\<close> pattern: tab to carriage return, the separators 0x1C to 0x1F, the space, NEL
  and the no-break space.\<close>

definition isspace :: "char \<Rightarrow> bool" where
  "isspace c = (let n = (of_char c :: nat) in
     (9 \<le> n \<and> n \<le> 13) \<or> (28 \<le> n \<and> n \<le> 32) \<or> n = 133 \<or> n = 160)"

text \<open>\<open>s.strip()\<close>.\<close>

definition strip :: "string \<Rightarrow> string" where
  "strip s = rev (dropWhile isspace (rev (dropWhile isspace s)))"

text \<open>Slices \<open>xs[i:j]\<close>, \<open>xs[:j]\<close> and \<open>xs[i:]\<close>: a negative index counts from the
  end, and every index is clipped to the range of the list.\<close>

definition norm_index :: "nat \<Rightarrow> int \<Rightarrow> nat" where
  "norm_index n i = (if i < 0 then nat (int n + i) else min (nat i) n)"

definition slice :: "'a list \<Rightarrow> int \<Rightarrow> int \<Rightarrow> 'a list" where
  "slice xs i j =
     (let a = norm_index (length xs) i; b = norm_index (length xs) j
      in take (b - a) (drop a xs))"

definition slice_to :: "'a list \<Rightarrow> int \<Rightarrow> 'a list" where
  "slice_to xs j = take (norm_index (length xs) j) xs"

definition slice_from :: "'a list \<Rightarrow> int \<Rightarrow> 'a list" where
  "slice_from xs i = drop (norm_index (length xs) i) xs"

text \<open>\<open>sub in s\<close> on strings.\<close>

fun contains :: "string \<Rightarrow> string \<Rightarrow> bool" where
  "contains sub [] = (sub = [])"
| "contains sub (c # cs) = (prefix sub (c # cs) \<or> contains sub cs)"

subsection \<open>The regular expressions of the source\<close>

text \<open>
  A pattern is given by its match at the head of a string: the length of the (greedy)
  match that starts at the first character, if there is one. None of the four patterns
  of the source matches the empty string.
\<close>

type_synonym matcher = "string \<Rightarrow> nat option"

definition is_sentence_end :: "char \<Rightarrow> bool" where
  "is_sentence_end c = (c = CHR ''.'' \<or> c = CHR ''!'' \<or> c = CHR ''?'')"

text \<open>\<^verbatim>\<open>\n\n+\<close>: two newlines and every newline that follows.\<close>

definition paragraph_pattern :: matcher where
  "paragraph_pattern s =
     (case s of
        c # d # _ \<Rightarrow>
          if c = newline \<and> d = newline then Some (length (takeWhile (\<lambda>x. x = newline) s))
          else None
      | _ \<Rightarrow> None)"

text \<open>\<^verbatim>\<open>[.!?]\s+\<close>: one sentence-ending character and the whole run of whitespace after it.\<close>

definition sentence_pattern :: matcher where
  "sentence_pattern s =
     (case s of
        c # d # ds \<Rightarrow>
          if is_sentence_end c \<and> isspace d then Some (1 + length (takeWhile isspace (d # ds)))
          else None
      | _ \<Rightarrow> None)"

text \<open>\<^verbatim>\<open>\n\<close>.\<close>

definition line_pattern :: matcher where
  "line_pattern s = (case s of c # _ \<Rightarrow> if c = newline then Some 1 else None | _ \<Rightarrow> None)"

text \<open>\<^verbatim>\<open>[.!?]\s\<close>: one sentence-ending character and one whitespace character.\<close>

definition sentence_space_pattern :: matcher where
  "sentence_space_pattern s =
     (case s of
        c # d # _ \<Rightarrow> if is_sentence_end c \<and> isspace d then Some 2 else None
      | _ \<Rightarrow> None)"

text \<open>\<open>re.finditer(p, s)\<close>: the non-overlapping matches from left to right, as pairs
  \<open>(match.start(), match.end())\<close>. The scan resumes where a match ends, and one
  character further where there is none.\<close>

function finditer :: "matcher \<Rightarrow> nat \<Rightarrow> string \<Rightarrow> (nat \<times> nat) list" where
  "finditer p off [] = []"
| "finditer p off (c # cs) =
     (case p (c # cs) of
        Some (Suc k) \<Rightarrow> (off, off + Suc k) # finditer p (off + Suc k) (drop k cs)
      | _ \<Rightarrow> finditer p (off + 1) cs)"
  by pat_completeness auto
termination
  by (relation "measure (\<lambda>(p, off, s). length s)") auto

text \<open>\<open>re.search(p, s)\<close>: the first match, or \<open>None\<close>.\<close>

definition re_search :: "matcher \<Rightarrow> string \<Rightarrow> (nat \<times> nat) option" where
  "re_search p s = (case finditer p 0 s of [] \<Rightarrow> None | m # _ \<Rightarrow> Some m)"

text \<open>\<open>re.split(p, s)\<close> for a pattern without groups: the pieces of \<open>s\<close> between the
  matches, always one piece more than there are matches.\<close>

fun split_at :: "string \<Rightarrow> nat \<Rightarrow> (nat \<times> nat) list \<Rightarrow> string list" where
  "split_at s prev [] = [drop prev s]"
| "split_at s prev ((a, b) # ms) = take (a - prev) (drop prev s) # split_at s b ms"

definition re_split :: "matcher \<Rightarrow> string \<Rightarrow> string list" where
  "re_split p s = split_at s 0 (finditer p 0 s)"

section \<open>models.py\<close>

datatype ChunkType = FIRST | MIDDLE | FINAL

text \<open>The dictionary built by \<open>get_boundary_info\<close>: the two context keys are absent
  from the dictionary of an edge position.\<close>

record BoundaryInfo =
  position :: int
  "type" :: string
  score :: real
  before_context :: "string option"
  after_context :: "string option"

record TextChunk =
  chunk_id :: int
  chunk_type :: ChunkType
  "text" :: string
  token_count :: int
  start_position :: int
  end_position :: int
  overlap_with_previous :: int
  boundary_info :: BoundaryInfo
  boundary_score :: real

text \<open>The dataclass constructor followed by \<open>TextChunk.__post_init__\<close>.\<close>

definition TextChunk_init ::
  "int \<Rightarrow> ChunkType \<Rightarrow> string \<Rightarrow> int \<Rightarrow> int \<Rightarrow> int \<Rightarrow> int \<Rightarrow> BoundaryInfo \<Rightarrow> real
     \<Rightarrow> error + TextChunk" where
  "TextChunk_init cid ctype txt tokens startp endp overlap binfo bscore =
     (if cid < 0 then Inl (ValueError ''chunk_id must be non-negative'')
      else if strip txt = [] then Inl (ValueError ''text cannot be empty'')
      else if tokens \<le> 0 then Inl (ValueError ''token_count must be positive'')
      else if bscore < 0 \<or> bscore > 1 then
        Inl (ValueError ''boundary_score must be between 0 and 1'')
      else Inr \<lparr>chunk_id = cid, chunk_type = ctype, text = txt, token_count = tokens,
                start_position = startp, end_position = endp,
                overlap_with_previous = overlap, boundary_info = binfo,
                boundary_score = bscore\<rparr>)"

record ChunkingConfig =
  max_chunk_tokens :: int
  overlap_tokens :: int
  tokenizer_name :: string

text \<open>The dataclass constructor followed by \<open>ChunkingConfig.__post_init__\<close>.\<close>

definition ChunkingConfig_init :: "int \<Rightarrow> int \<Rightarrow> string \<Rightarrow> error + ChunkingConfig" where
  "ChunkingConfig_init max_tokens overlap name =
     (if max_tokens \<le> 0 then Inl (ValueError ''max_chunk_tokens must be positive'')
      else if overlap < 0 then Inl (ValueError ''overlap_tokens must be non-negative'')
      else if overlap \<ge> max_tokens then
        Inl (ValueError ''overlap_tokens must be less than max_chunk_tokens'')
      else Inr \<lparr>max_chunk_tokens = max_tokens, overlap_tokens = overlap,
                tokenizer_name = name\<rparr>)"

section \<open>simple_token_manager.py\<close>

text \<open>
  The tokenizer is the tiktoken encoding named by the configuration, a library outside
  the repository. It enters the model as a parameter: \<open>tok s\<close> is
  \<open>len(self.tokenizer.encode(s))\<close>, a natural number.
\<close>

type_synonym tokenizer = "string \<Rightarrow> nat"

definition count_tokens :: "tokenizer \<Rightarrow> string \<Rightarrow> int" where
  "count_tokens tok txt = (if txt = [] then 0 else int (tok txt))"

text \<open>The binary search of \<open>find_token_boundary\<close>: the \<open>while left <= right\<close> loop
  on the variables \<open>left\<close>, \<open>right\<close> and \<open>best_pos\<close>.\<close>

function token_boundary_search ::
  "tokenizer \<Rightarrow> string \<Rightarrow> int \<Rightarrow> int \<Rightarrow> int \<Rightarrow> int \<Rightarrow> int" where
  "token_boundary_search tok txt target_tokens left right best_pos =
     (if left \<le> right then
        (if count_tokens tok (slice_to txt ((left + right) div 2)) \<le> target_tokens
         then token_boundary_search tok txt target_tokens
                ((left + right) div 2 + 1) right ((left + right) div 2)
         else token_boundary_search tok txt target_tokens
                left ((left + right) div 2 - 1) best_pos)
      else best_pos)"
  by pat_completeness auto
termination
  by (relation "measure (\<lambda>(tok, txt, target_tokens, left, right, best_pos).
        nat (right - left + 1))") auto

declare token_boundary_search.simps [simp del]

definition find_token_boundary :: "tokenizer \<Rightarrow> string \<Rightarrow> int \<Rightarrow> int" where
  "find_token_boundary tok txt target_tokens =
     (if txt = [] then 0
      else if count_tokens tok txt \<le> target_tokens then int (length txt)
      else token_boundary_search tok txt target_tokens 0 (int (length txt)) 0)"

definition get_effective_chunk_size :: "ChunkingConfig \<Rightarrow> int" where
  "get_effective_chunk_size config = max_chunk_tokens config - overlap_tokens config"

section \<open>simple_boundary_optimizer.py\<close>

definition is_within_token_limit :: "tokenizer \<Rightarrow> string \<Rightarrow> int \<Rightarrow> int \<Rightarrow> bool" where
  "is_within_token_limit tok txt target_tokens tolerance =
     (count_tokens tok txt \<le> target_tokens + tolerance)"

text \<open>One \<open>for match in re.finditer(...)\<close> loop of \<open>find_optimal_boundary\<close>, on the
  pair \<open>(best_pos, best_score)\<close>: a match whose prefix is within the limit (with the
  default tolerance of 50) replaces the best position when its score is strictly better.\<close>

definition scan_matches ::
  "tokenizer \<Rightarrow> string \<Rightarrow> int \<Rightarrow> int \<Rightarrow> real \<Rightarrow> (nat \<times> nat) list \<Rightarrow> int \<times> real
     \<Rightarrow> int \<times> real" where
  "scan_matches tok txt target_tokens start_pos sc ms best =
     fold (\<lambda>m b.
        if is_within_token_limit tok (slice_to txt (start_pos + int (snd m))) target_tokens 50
        then (if sc > snd b then (start_pos + int (snd m), sc) else b)
        else b) ms best"

definition find_optimal_boundary :: "tokenizer \<Rightarrow> string \<Rightarrow> int \<Rightarrow> int \<times> real" where
  "find_optimal_boundary tok txt target_tokens =
     (if txt = [] then (0, 0.0)
      else if count_tokens tok txt \<le> target_tokens then (int (length txt), 1.0)
      else
        let approx_pos = find_token_boundary tok txt target_tokens;
            search_window = min 500 (int (length txt) div 10);
            start_pos = max 0 (approx_pos - search_window);
            end_pos = min (int (length txt)) (approx_pos + search_window);
            window = slice txt start_pos end_pos;
            best0 = (approx_pos, 0.5);
            best1 = scan_matches tok txt target_tokens start_pos 1.0
                      (finditer paragraph_pattern 0 window) best0;
            best2 = (if snd best1 < 0.9
                     then scan_matches tok txt target_tokens start_pos 0.8
                            (finditer sentence_pattern 0 window) best1
                     else best1);
            best3 = (if snd best2 < 0.7
                     then scan_matches tok txt target_tokens start_pos 0.6
                            (finditer line_pattern 0 window) best2
                     else best2)
        in best3)"

definition create_overlap :: "tokenizer \<Rightarrow> string \<Rightarrow> int \<Rightarrow> string" where
  "create_overlap tok txt n =
     (if txt = [] \<or> n \<le> 0 then []
      else
        let overlap_pos = find_token_boundary tok txt n in
        if overlap_pos \<ge> int (length txt) then txt
        else
          let overlap_text = (if overlap_pos > 0 then slice_from txt (- overlap_pos) else []);
              sentences = re_split sentence_pattern overlap_text
          in if length sentences > 1
             then (if last sentences \<noteq> [] then last sentences else overlap_text)
             else overlap_text)"

text \<open>\<open>get_boundary_info\<close>. The assignments \<open>boundary_type = "word"\<close> and
  \<open>score = 0.3\<close> before the \<open>if\<close> chain are overwritten by every branch of it.\<close>

definition get_boundary_info :: "string \<Rightarrow> int \<Rightarrow> BoundaryInfo" where
  "get_boundary_info txt pos =
     (if pos \<le> 0 \<or> pos \<ge> int (length txt) then
        \<lparr>position = pos, type = ''edge'', score = 0.0,
         before_context = None, after_context = None\<rparr>
      else
        let before = slice txt (max 0 (pos - 5)) pos;
            after = slice txt pos (min (int (length txt)) (pos + 5));
            context = before @ after;
            (boundary_type, sc) =
              (if contains [newline, newline] context then (''paragraph'', 1.0)
               else if re_search sentence_space_pattern context \<noteq> None then (''sentence'', 0.8)
               else if contains [newline] context then (''line'', 0.6)
               else if contains '' '' context then (''word'', 0.4)
               else (''character'', 0.1))
        in \<lparr>position = pos, type = boundary_type, score = sc,
            before_context = Some before, after_context = Some after\<rparr>)"

section \<open>text_chunker.py\<close>

text \<open>
  The \<open>while remaining_text.strip()\<close> loop of \<open>chunk_text\<close>, on the variables
  \<open>chunks\<close>, \<open>remaining_text\<close>, \<open>chunk_id\<close> and \<open>current_position\<close>. The loop is
  a partial function: \<open>None\<close> is a run that never leaves the loop. A run that leaves it
  gives the list of chunks together with the text that remained at the exit, or the
  error raised by the \<open>TextChunk\<close> constructor.
\<close>

partial_function (option) chunk_loop ::
  "tokenizer \<Rightarrow> ChunkingConfig \<Rightarrow> TextChunk list \<Rightarrow> string \<Rightarrow> int \<Rightarrow> int
     \<Rightarrow> (error + TextChunk list \<times> string) option" where
  "chunk_loop tok config chunks remaining_text cid current_position =
     (if strip remaining_text = [] then Some (Inr (chunks, remaining_text))
      else
        let target_tokens = get_effective_chunk_size config;
            boundary = find_optimal_boundary tok remaining_text target_tokens;
            boundary_pos = fst boundary;
            bscore = snd boundary;
            chunk_txt = strip (slice_to remaining_text boundary_pos)
        in if chunk_txt = [] then Some (Inr (chunks, remaining_text))
           else
             let overlap_chars =
                   (if cid > 0 \<and> overlap_tokens config > 0
                    then int (length (create_overlap tok chunk_txt (overlap_tokens config)))
                    else 0);
                 remaining_after = strip (slice_from remaining_text boundary_pos);
                 ctype = (if cid = 0 then FIRST
                          else if remaining_after = [] then FINAL
                          else MIDDLE)
             in case TextChunk_init cid ctype chunk_txt (count_tokens tok chunk_txt)
                       current_position (current_position + int (length chunk_txt))
                       overlap_chars (get_boundary_info remaining_text boundary_pos) bscore of
                  Inl e \<Rightarrow> Some (Inl e)
                | Inr chunk \<Rightarrow>
                    if boundary_pos = 0 then Some (Inr (chunks @ [chunk], remaining_after))
                    else chunk_loop tok config (chunks @ [chunk]) remaining_after
                           (cid + 1) (current_position + boundary_pos))"

declare chunk_loop.simps [code]

text \<open>The pieces of one iteration of the loop, named for the proofs: the result of
  \<open>find_optimal_boundary\<close> on the remaining text, and the \<open>TextChunk\<close> that the
  iteration constructs (or the error its constructor raises).\<close>

definition iteration_boundary :: "tokenizer \<Rightarrow> ChunkingConfig \<Rightarrow> string \<Rightarrow> int \<times> real" where
  "iteration_boundary tok config remaining_text =
     find_optimal_boundary tok remaining_text (get_effective_chunk_size config)"

definition iteration_chunk ::
  "tokenizer \<Rightarrow> ChunkingConfig \<Rightarrow> string \<Rightarrow> int \<Rightarrow> int \<Rightarrow> error + TextChunk" where
  "iteration_chunk tok config remaining_text cid current_position =
     (let boundary_pos = fst (iteration_boundary tok config remaining_text);
          bscore = snd (iteration_boundary tok config remaining_text);
          chunk_txt = strip (slice_to remaining_text boundary_pos);
          overlap_chars =
            (if cid > 0 \<and> overlap_tokens config > 0
             then int (length (create_overlap tok chunk_txt (overlap_tokens config)))
             else 0);
          remaining_after = strip (slice_from remaining_text boundary_pos);
          ctype = (if cid = 0 then FIRST
                   else if remaining_after = [] then FINAL
                   else MIDDLE)
      in TextChunk_init cid ctype chunk_txt (count_tokens tok chunk_txt)
           current_position (current_position + int (length chunk_txt))
           overlap_chars (get_boundary_info remaining_text boundary_pos) bscore)"

definition chunk_text ::
  "tokenizer \<Rightarrow> ChunkingConfig \<Rightarrow> string \<Rightarrow> (error + TextChunk list) option" where
  "chunk_text tok config txt =
     (if strip txt = [] then Some (Inl (ValueError ''Input text cannot be empty''))
      else map_option (map_sum id fst) (chunk_loop tok config [] txt 0 0))"

text \<open>\<open>chunk_text_iterator\<close> yields the chunks of \<open>chunk_text\<close> one by one; an error of
  \<open>chunk_text\<close> is raised before the first chunk is yielded.\<close>

definition chunk_text_iterator ::
  "tokenizer \<Rightarrow> ChunkingConfig \<Rightarrow> string \<Rightarrow> (error + TextChunk list) option" where
  "chunk_text_iterator tok config txt = chunk_text tok config txt"

text \<open>The range of a result of \<open>find_optimal_boundary\<close>: a position that is not
  negative and a score between 0 and 1.\<close>

definition in_range :: "int \<times> real \<Rightarrow> bool" where
  "in_range b = (0 \<le> fst b \<and> 0 \<le> snd b \<and> snd b \<le> 1)"

text \<open>The kinds of the chunks built so far, at the head of the loop with the text that
  remains: no chunk yet and text left; or one \<open>FIRST\<close> and then only \<open>MIDDLE\<close> chunks
  (a lone \<open>FIRST\<close> when no text is left); or these closed by one \<open>FINAL\<close>, with no text
  left.\<close>

definition kinds_inv :: "TextChunk list \<Rightarrow> string \<Rightarrow> bool" where
  "kinds_inv chunks rem =
     ((chunks = [] \<and> strip rem \<noteq> [])
      \<or> (\<exists>k. map chunk_type chunks = FIRST # replicate k MIDDLE \<and> (strip rem = [] \<longrightarrow> k = 0))
      \<or> (\<exists>k. map chunk_type chunks = FIRST # replicate k MIDDLE @ [FINAL] \<and> strip rem = []))"

section \<open>Validation by the code itself\<close>

text \<open>
  \<open>validate_chunks\<close> returns one message per violated requirement. A message is
  modelled by its kind and the values formatted into it:
  \<open>ExceedsTokenLimit i n m\<close> is \<open>"Chunk {i} exceeds token limit: {n} > {m}"\<close>,
  \<open>FirstNotFIRST t\<close> is \<open>"First chunk should be ChunkType.FIRST, got {t}"\<close>,
  \<open>LastNotFINAL t\<close> is \<open>"Last chunk should be ChunkType.FINAL, got {t}"\<close> and
  \<open>EmptyText i\<close> is \<open>"Chunk {i} has empty text"\<close>.
\<close>

datatype issue =
  ExceedsTokenLimit nat int int
| FirstNotFIRST ChunkType
| LastNotFINAL ChunkType
| EmptyText nat

definition chunk_issues :: "ChunkingConfig \<Rightarrow> nat \<Rightarrow> nat \<Rightarrow> TextChunk \<Rightarrow> issue list" where
  "chunk_issues config n i chunk =
     (if token_count chunk > max_chunk_tokens config
      then [ExceedsTokenLimit i (token_count chunk) (max_chunk_tokens config)] else []) @
     (if i = 0 \<and> chunk_type chunk \<noteq> FIRST then [FirstNotFIRST (chunk_type chunk)] else []) @
     (if int i = int n - 1 \<and> chunk_type chunk \<noteq> FINAL \<and> n > 1
      then [LastNotFINAL (chunk_type chunk)] else []) @
     (if strip (text chunk) = [] then [EmptyText i] else [])"

definition validate_chunks :: "ChunkingConfig \<Rightarrow> TextChunk list \<Rightarrow> issue list" where
  "validate_chunks config chunks =
     concat (map (\<lambda>(i, chunk). chunk_issues config (length chunks) i chunk)
               (enumerate 0 chunks))"

section \<open>The boundary classification in the words of the specification\<close>

text \<open>
  These definitions follow the specification, not the source: the context of a position
  is the characters at the offsets from \<open>position - 5\<close> up to \<open>position + 4\<close> that exist
  in the text; a blank-line pattern is two adjacent newlines, a sentence end is a
  sentence-ending character followed by a whitespace character. The classes are tried in
  the order paragraph, sentence, line, word, character; an edge position is decided first.
\<close>

definition context_window :: "string \<Rightarrow> int \<Rightarrow> string" where
  "context_window txt pos =
     map (\<lambda>i. txt ! i) [nat (max 0 (pos - 5)) ..< nat (min (int (length txt)) (pos + 5))]"

definition has_blank_line :: "string \<Rightarrow> bool" where
  "has_blank_line ctx =
     list_ex (\<lambda>i. ctx ! i = newline \<and> ctx ! Suc i = newline) [0 ..< length ctx - 1]"

definition has_sentence_end :: "string \<Rightarrow> bool" where
  "has_sentence_end ctx =
     list_ex (\<lambda>i. is_sentence_end (ctx ! i) \<and> isspace (ctx ! Suc i)) [0 ..< length ctx - 1]"

definition boundary_class_spec :: "string \<Rightarrow> int \<Rightarrow> string \<times> real" where
  "boundary_class_spec txt pos =
     (if pos \<le> 0 \<or> pos \<ge> int (length txt) then (''edge'', 0.0)
      else if has_blank_line (context_window txt pos) then (''paragraph'', 1.0)
      else if has_sentence_end (context_window txt pos) then (''sentence'', 0.8)
      else if newline \<in> set (context_window txt pos) then (''line'', 0.6)
      else if CHR '' '' \<in> set (context_window txt pos) then (''word'', 0.4)
      else (''character'', 0.1))"

section \<open>Facts about the Python values\<close>

lemma length_strip_le: "length (strip s) \<le> length s"
proof -
  have "length (strip s) \<le> length (dropWhile isspace s)"
    unfolding strip_def using length_dropWhile_le [of isspace "rev (dropWhile isspace s)"] by simp
  also have "\<dots> \<le> length s" by (rule length_dropWhile_le)
  finally show ?thesis .
qed

lemma strip_Nil [simp]: "strip [] = []"
  by (simp add: strip_def)

lemma strip_idem: "strip (strip s) = strip s"
proof -
  define a where "a = dropWhile isspace s"
  define b where "b = dropWhile isspace (rev a)"
  have s: "strip s = rev b" by (simp add: strip_def a_def b_def)
  have "dropWhile isspace (rev b) = rev b"
  proof (cases "b = []")
    case True then show ?thesis by simp
  next
    case False
    then obtain x where x: "x \<in> set (rev a)" "\<not> isspace x"
      unfolding b_def by (auto simp: dropWhile_eq_Nil_conv)
    then have "last b = last (rev a)" unfolding b_def by (rule dropWhile_last)
    moreover have "a \<noteq> []" using x by auto
    then have "\<not> isspace (hd a)" unfolding a_def by (rule hd_dropWhile)
    ultimately have "\<not> isspace (hd (rev b))" using False \<open>a \<noteq> []\<close>
      by (simp add: hd_rev last_rev)
    then show ?thesis by (simp add: dropWhile_eq_self_iff)
  qed
  moreover have "dropWhile isspace b = b" by (simp add: b_def)
  ultimately have "strip (rev b) = rev b" by (simp add: strip_def)
  then show ?thesis by (simp add: s)
qed

lemma split_at_not_Nil [simp]: "split_at s prev ms \<noteq> []"
  by (cases ms) auto

lemma last_split_at:
  "last (split_at s prev ms) = drop (if ms = [] then prev else snd (last ms)) s"
  by (induction ms arbitrary: prev) (auto split: prod.splits)

lemma suffix_last_re_split: "suffix (last (re_split p s)) s"
  by (simp add: re_split_def last_split_at suffix_drop)

lemma suffix_slice_from: "suffix (slice_from xs i) xs"
  by (simp add: slice_from_def suffix_drop)

section \<open>The binary search\<close>

lemma slice_to_nonneg: "0 \<le> j \<Longrightarrow> slice_to xs j = take (nat j) xs"
  by (simp add: slice_to_def norm_index_def min_def)

lemma token_boundary_search_bounds:
  "0 \<le> left \<Longrightarrow> 0 \<le> best_pos \<Longrightarrow> right \<le> int (length s) \<Longrightarrow> best_pos \<le> int (length s)
   \<Longrightarrow> 0 \<le> token_boundary_search tok s target left right best_pos
     \<and> token_boundary_search tok s target left right best_pos \<le> int (length s)"
proof (induction tok s target left right best_pos rule: token_boundary_search.induct)
  case (1 tok s target left right best_pos)
  show ?case
  proof (cases "left \<le> right")
    case False
    with "1.prems" show ?thesis by (subst (1 2) token_boundary_search.simps) simp
  next
    case True
    let ?mid = "(left + right) div 2"
    have mid: "left \<le> ?mid" "?mid \<le> right" using True by linarith+
    show ?thesis
    proof (cases "count_tokens tok (slice_to s ?mid) \<le> target")
      case c: True
      have "0 \<le> token_boundary_search tok s target (?mid + 1) right ?mid
            \<and> token_boundary_search tok s target (?mid + 1) right ?mid \<le> int (length s)"
        using "1.IH"(1) [OF True c] mid "1.prems" by linarith
      then show ?thesis using True c by (subst (1 2) token_boundary_search.simps) simp
    next
      case c: False
      have "0 \<le> token_boundary_search tok s target left (?mid - 1) best_pos
            \<and> token_boundary_search tok s target left (?mid - 1) best_pos \<le> int (length s)"
        using "1.IH"(2) [OF True c] mid "1.prems" by linarith
      then show ?thesis using True c by (subst (1 2) token_boundary_search.simps) simp
    qed
  qed
qed

lemma find_token_boundary_bounds:
  "0 \<le> find_token_boundary tok s target \<and> find_token_boundary tok s target \<le> int (length s)"
  unfolding find_token_boundary_def
  using token_boundary_search_bounds [of 0 0 "int (length s)" s tok target] by simp

lemma token_boundary_search_maximal:
  assumes mono: "\<And>i j. i \<le> j \<Longrightarrow> j \<le> length s \<Longrightarrow>
                   count_tokens tok (take i s) \<le> count_tokens tok (take j s)"
    and "0 \<le> target"
    and "0 \<le> left" "right \<le> int (length s)" "left \<le> right + 1"
    and "\<And>i. int i < left \<Longrightarrow> count_tokens tok (take i s) \<le> target"
    and "\<And>i. right < int i \<Longrightarrow> i \<le> length s \<Longrightarrow> target < count_tokens tok (take i s)"
    and "best_pos = max 0 (left - 1)"
  shows "count_tokens tok (take (nat (token_boundary_search tok s target left right best_pos)) s)
           \<le> target
       \<and> (\<forall>i \<le> length s. count_tokens tok (take i s) \<le> target
            \<longrightarrow> int i \<le> token_boundary_search tok s target left right best_pos)"
  using assms
proof (induction tok s target left right best_pos rule: token_boundary_search.induct)
  case (1 tok s target left right best_pos)
  let ?mid = "(left + right) div 2"
  show ?case
  proof (cases "left \<le> right")
    case False
    then have lr: "left = right + 1" using "1.prems"(5) by simp
    have r: "token_boundary_search tok s target left right best_pos = best_pos"
      using False by (subst token_boundary_search.simps) simp
    have a: "count_tokens tok (take (nat best_pos) s) \<le> target"
    proof (cases "left = 0")
      case True
      then show ?thesis using "1.prems"(2,8) by (simp add: count_tokens_def)
    next
      case False
      then have "int (nat best_pos) < left" using "1.prems"(3,8) by simp
      then show ?thesis by (rule "1.prems"(6))
    qed
    have b: "int i \<le> best_pos" if "i \<le> length s" "count_tokens tok (take i s) \<le> target" for i
    proof (rule ccontr)
      assume "\<not> int i \<le> best_pos"
      then have "right < int i" using lr "1.prems"(8) by simp
      from "1.prems"(7) [OF this that(1)] that(2) show False by simp
    qed
    show ?thesis using a b by (simp add: r)
  next
    case True
    have mid: "left \<le> ?mid" "?mid \<le> right" using True by linarith+
    have st: "slice_to s ?mid = take (nat ?mid) s"
      using mid "1.prems"(3) by (simp add: slice_to_nonneg)
    have midlen: "nat ?mid \<le> length s" using mid "1.prems"(4) by linarith
    show ?thesis
    proof (cases "count_tokens tok (slice_to s ?mid) \<le> target")
      case c: True
      have low: "count_tokens tok (take i s) \<le> target" if "int i < ?mid + 1" for i
      proof -
        have "i \<le> nat ?mid" using that by linarith
        from "1.prems"(1) [OF this midlen] c st show ?thesis by simp
      qed
      have "count_tokens tok (take (nat (token_boundary_search tok s target (?mid + 1) right ?mid)) s)
              \<le> target
           \<and> (\<forall>i \<le> length s. count_tokens tok (take i s) \<le> target
                \<longrightarrow> int i \<le> token_boundary_search tok s target (?mid + 1) right ?mid)"
      proof (rule "1.IH"(1) [OF True c])
        show "\<And>i j. i \<le> j \<Longrightarrow> j \<le> length s \<Longrightarrow>
                count_tokens tok (take i s) \<le> count_tokens tok (take j s)" by (rule "1.prems"(1))
        show "0 \<le> target" by (rule "1.prems"(2))
        show "0 \<le> ?mid + 1" using mid "1.prems"(3) by linarith
        show "right \<le> int (length s)" by (rule "1.prems"(4))
        show "?mid + 1 \<le> right + 1" using mid by linarith
        show "\<And>i. int i < ?mid + 1 \<Longrightarrow> count_tokens tok (take i s) \<le> target" by (rule low)
        show "\<And>i. right < int i \<Longrightarrow> i \<le> length s \<Longrightarrow> target < count_tokens tok (take i s)"
          by (rule "1.prems"(7))
        show "?mid = max 0 (?mid + 1 - 1)" using mid "1.prems"(3) by linarith
      qed
      then show ?thesis using True c by (subst (1 2) token_boundary_search.simps) simp
    next
      case c: False
      have high: "target < count_tokens tok (take i s)" if "?mid - 1 < int i" "i \<le> length s" for i
      proof -
        have "nat ?mid \<le> i" using that by linarith
        from "1.prems"(1) [OF this that(2)] c st show ?thesis by simp
      qed
      have "count_tokens tok (take (nat (token_boundary_search tok s target left (?mid - 1) best_pos)) s)
              \<le> target
           \<and> (\<forall>i \<le> length s. count_tokens tok (take i s) \<le> target
                \<longrightarrow> int i \<le> token_boundary_search tok s target left (?mid - 1) best_pos)"
      proof (rule "1.IH"(2) [OF True c])
        show "\<And>i j. i \<le> j \<Longrightarrow> j \<le> length s \<Longrightarrow>
                count_tokens tok (take i s) \<le> count_tokens tok (take j s)" by (rule "1.prems"(1))
        show "0 \<le> target" by (rule "1.prems"(2))
        show "0 \<le> left" by (rule "1.prems"(3))
        show "?mid - 1 \<le> int (length s)" using mid "1.prems"(4) by linarith
        show "left \<le> ?mid - 1 + 1" using mid by linarith
        show "\<And>i. int i < left \<Longrightarrow> count_tokens tok (take i s) \<le> target" by (rule "1.prems"(6))
        show "\<And>i. ?mid - 1 < int i \<Longrightarrow> i \<le> length s \<Longrightarrow> target < count_tokens tok (take i s)"
          by (rule high)
        show "best_pos = max 0 (left - 1)" by (rule "1.prems"(8))
      qed
      then show ?thesis using True c by (subst (1 2) token_boundary_search.simps) simp
    qed
  qed
qed

section \<open>Substring tests and searches\<close>

lemma contains_single: "contains [a] s = (a \<in> set s)"
  by (induction s) auto

lemma contains_pair:
  "contains [a, b] s = (\<exists>i. Suc i < length s \<and> s ! i = a \<and> s ! Suc i = b)"
proof (induction s)
  case Nil
  then show ?case by simp
next
  case (Cons c cs)
  have "(\<exists>i. Suc i < length (c # cs) \<and> (c # cs) ! i = a \<and> (c # cs) ! Suc i = b)
        = ((cs \<noteq> [] \<and> c = a \<and> hd cs = b) \<or> (\<exists>i. Suc i < length cs \<and> cs ! i = a \<and> cs ! Suc i = b))"
    (is "?L = (?A \<or> ?B)")
  proof
    assume ?L
    then obtain i where i: "Suc i < length (c # cs)" "(c # cs) ! i = a" "(c # cs) ! Suc i = b" by blast
    show "?A \<or> ?B"
    proof (cases i)
      case 0
      with i show ?thesis by (cases cs) auto
    next
      case (Suc j)
      with i show ?thesis by auto
    qed
  next
    assume "?A \<or> ?B"
    then show ?L
    proof
      assume ?A
      then have "Suc 0 < length (c # cs) \<and> (c # cs) ! 0 = a \<and> (c # cs) ! Suc 0 = b"
        by (cases cs) auto
      then show ?L by blast
    next
      assume ?B
      then obtain i where "Suc i < length cs \<and> cs ! i = a \<and> cs ! Suc i = b" by blast
      then have "Suc (Suc i) < length (c # cs) \<and> (c # cs) ! Suc i = a \<and> (c # cs) ! Suc (Suc i) = b"
        by simp
      then show ?L by blast
    qed
  qed
  moreover have "prefix [a, b] (c # cs) = (cs \<noteq> [] \<and> c = a \<and> hd cs = b)"
    by (cases cs) auto
  ultimately show ?case using Cons.IH by simp
qed

lemma finditer_Nil_iff:
  "(finditer p off s = []) = (\<forall>n < length s. \<forall>k. p (drop n s) \<noteq> Some (Suc k))"
proof (induction p off s rule: finditer.induct)
  case (1 p off)
  then show ?case by simp
next
  case (2 p off c cs)
  show ?case
  proof (cases "\<exists>k. p (c # cs) = Some (Suc k)")
    case True
    then obtain k where k: "p (c # cs) = Some (Suc k)" by blast
    then have "finditer p off (c # cs) \<noteq> []" by simp
    moreover have "\<not> (\<forall>n < length (c # cs). \<forall>k. p (drop n (c # cs)) \<noteq> Some (Suc k))"
      using k by (auto intro: exI [of _ 0])
    ultimately show ?thesis by blast
  next
    case False
    then have f: "finditer p off (c # cs) = finditer p (off + 1) cs"
      by (auto split: option.splits nat.splits)
    have ih: "(finditer p (off + 1) cs = []) = (\<forall>n < length cs. \<forall>k. p (drop n cs) \<noteq> Some (Suc k))"
    proof (cases "p (c # cs)")
      case None
      then show ?thesis by (rule "2.IH"(1))
    next
      case (Some m)
      with False have "m = 0" by (cases m) auto
      with Some show ?thesis using "2.IH"(2) by blast
    qed
    have "(\<forall>n < length (c # cs). \<forall>k. p (drop n (c # cs)) \<noteq> Some (Suc k))
          = (\<forall>n < length cs. \<forall>k. p (drop n cs) \<noteq> Some (Suc k))"
      using False by (auto simp: less_Suc_eq_0_disj)
    then show ?thesis using f ih by simp
  qed
qed

lemma sentence_space_pattern_drop:
  "(\<exists>k. sentence_space_pattern (drop n s) = Some (Suc k))
   = (Suc n < length s \<and> is_sentence_end (s ! n) \<and> isspace (s ! Suc n))"
proof (cases "Suc n < length s")
  case True
  then have "drop n s = s ! n # s ! Suc n # drop (Suc (Suc n)) s"
    by (metis Cons_nth_drop_Suc Suc_lessD)
  then show ?thesis using True by (simp add: sentence_space_pattern_def)
next
  case False
  then have "length (drop n s) \<le> 1" by simp
  then have "drop n s = [] \<or> (\<exists>c. drop n s = [c])"
    by (cases "drop n s") auto
  then show ?thesis using False by (auto simp: sentence_space_pattern_def)
qed

lemma re_search_sentence_space:
  "(re_search sentence_space_pattern s \<noteq> None)
   = (\<exists>i. Suc i < length s \<and> is_sentence_end (s ! i) \<and> isspace (s ! Suc i))"
proof -
  have "(re_search sentence_space_pattern s \<noteq> None) = (finditer sentence_space_pattern 0 s \<noteq> [])"
    by (simp add: re_search_def split: list.splits)
  also have "\<dots> = (\<exists>n < length s. \<exists>k. sentence_space_pattern (drop n s) = Some (Suc k))"
    by (simp add: finditer_Nil_iff)
  also have "\<dots> = (\<exists>i. Suc i < length s \<and> is_sentence_end (s ! i) \<and> isspace (s ! Suc i))"
    using sentence_space_pattern_drop [of _ s] by (meson Suc_lessD)
  finally show ?thesis .
qed

lemma has_blank_line_iff:
  "has_blank_line ctx = (\<exists>i. Suc i < length ctx \<and> ctx ! i = newline \<and> ctx ! Suc i = newline)"
  unfolding has_blank_line_def list_ex_iff by (auto simp: less_diff_conv)

lemma has_sentence_end_iff:
  "has_sentence_end ctx = (\<exists>i. Suc i < length ctx \<and> is_sentence_end (ctx ! i) \<and> isspace (ctx ! Suc i))"
  unfolding has_sentence_end_def list_ex_iff by (auto simp: less_diff_conv)

lemma context_window_slices:
  assumes "0 < pos" "pos < int (length txt)"
  shows "slice txt (max 0 (pos - 5)) pos @ slice txt pos (min (int (length txt)) (pos + 5))
         = context_window txt pos"
proof -
  define a where "a = nat (max 0 (pos - 5))"
  define b where "b = nat (min (int (length txt)) (pos + 5))"
  define m where "m = nat pos"
  have ab: "a \<le> m" "m \<le> b" "b \<le> length txt" using assms by (auto simp: a_def b_def m_def)
  have 1: "slice txt (max 0 (pos - 5)) pos = take (m - a) (drop a txt)"
    using assms by (auto simp: slice_def norm_index_def a_def m_def Let_def min_def max_def)
  have 2: "slice txt pos (min (int (length txt)) (pos + 5)) = take (b - m) (drop m txt)"
    using assms by (auto simp: slice_def norm_index_def b_def m_def Let_def min_def max_def)
  have "take (m - a) (drop a txt) @ take (b - m) (drop m txt)
        = take (m - a) (drop a txt) @ take (b - m) (drop (m - a) (drop a txt))"
    using ab by simp
  also have "\<dots> = take ((m - a) + (b - m)) (drop a txt)" by (rule take_add [symmetric])
  also have "\<dots> = take (b - a) (drop a txt)" using ab by simp
  also have "\<dots> = map (\<lambda>i. txt ! i) [a..<b]"
    using ab by (intro nth_equalityI) (auto simp: nth_map_upt)
  finally show ?thesis by (simp add: 1 2 context_window_def a_def b_def)
qed


section \<open>The range of the optimal boundary\<close>

lemma scan_matches_range:
  assumes "0 \<le> start_pos" "0 \<le> sc" "sc \<le> 1" "in_range best"
  shows "in_range (scan_matches tok s target start_pos sc ms best)"
  using assms(4) unfolding scan_matches_def
proof (induction ms arbitrary: best)
  case Nil
  then show ?case by simp
next
  case (Cons m ms)
  have "in_range (start_pos + int (snd m), sc)" using assms(1-3) by (simp add: in_range_def)
  with Cons.prems show ?case by (simp add: Cons.IH)
qed

lemma find_optimal_boundary_range:
  "0 \<le> fst (find_optimal_boundary tok s target)
   \<and> 0 \<le> snd (find_optimal_boundary tok s target)
   \<and> snd (find_optimal_boundary tok s target) \<le> 1"
proof -
  define approx_pos where "approx_pos = find_token_boundary tok s target"
  define start_pos where
    "start_pos = max 0 (approx_pos - min 500 (int (length s) div 10))"
  define window where
    "window = slice s start_pos (min (int (length s)) (approx_pos + min 500 (int (length s) div 10)))"
  have sp: "0 \<le> start_pos" by (simp add: start_pos_def)
  define best1 where
    "best1 = scan_matches tok s target start_pos 1.0 (finditer paragraph_pattern 0 window)
               (approx_pos, 0.5)"
  define best2 where
    "best2 = (if snd best1 < 0.9
              then scan_matches tok s target start_pos 0.8 (finditer sentence_pattern 0 window) best1
              else best1)"
  define best3 where
    "best3 = (if snd best2 < 0.7
              then scan_matches tok s target start_pos 0.6 (finditer line_pattern 0 window) best2
              else best2)"
  have "in_range (approx_pos, 0.5)"
    using find_token_boundary_bounds [of tok s target] by (simp add: in_range_def approx_pos_def)
  then have "in_range best1" unfolding best1_def by (intro scan_matches_range sp) simp_all
  then have "in_range best2" unfolding best2_def
    by (cases "snd best1 < 0.9") (simp_all add: scan_matches_range sp)
  then have "in_range best3" unfolding best3_def
    by (cases "snd best2 < 0.7") (simp_all add: scan_matches_range sp)
  moreover have "in_range (0, 0)" "in_range (int (length s), 1)" by (simp_all add: in_range_def)
  moreover have "find_optimal_boundary tok s target =
      (if s = [] then (0, 0.0) else if count_tokens tok s \<le> target then (int (length s), 1.0)
       else best3)"
    by (simp only: find_optimal_boundary_def Let_def best3_def best2_def best1_def window_def
        start_pos_def approx_pos_def)
  ultimately have "in_range (find_optimal_boundary tok s target)" by simp
  then show ?thesis by (simp add: in_range_def)
qed

section \<open>The loop of the chunker\<close>

lemma chunk_loop_unfold:
  "chunk_loop tok config chunks rem cid pos =
     (if strip rem = [] \<or> strip (slice_to rem (fst (iteration_boundary tok config rem))) = []
      then Some (Inr (chunks, rem))
      else case iteration_chunk tok config rem cid pos of
             Inl e \<Rightarrow> Some (Inl e)
           | Inr chunk \<Rightarrow>
               if fst (iteration_boundary tok config rem) = 0
               then Some (Inr (chunks @ [chunk],
                               strip (slice_from rem (fst (iteration_boundary tok config rem)))))
               else chunk_loop tok config (chunks @ [chunk])
                      (strip (slice_from rem (fst (iteration_boundary tok config rem))))
                      (cid + 1) (pos + fst (iteration_boundary tok config rem)))"
proof -
  have disj: "(if a \<or> b then x else y) = (if a then x else if b then x else y)"
    for a b and x y :: "(error + TextChunk list \<times> string) option"
    by simp
  show ?thesis
    unfolding iteration_boundary_def iteration_chunk_def disj
    by (subst chunk_loop.simps) (simp only: Let_def)
qed

lemma slice_from_progress:
  "0 < i \<Longrightarrow> xs \<noteq> [] \<Longrightarrow> length (strip (slice_from xs i)) < length xs"
proof -
  assume a: "0 < i" "xs \<noteq> []"
  have "length (strip (slice_from xs i)) \<le> length (slice_from xs i)" by (rule length_strip_le)
  also have "\<dots> < length xs" using a by (auto simp: slice_from_def norm_index_def min_def)
  finally show ?thesis .
qed

lemma slice_to_zero [simp]: "slice_to xs 0 = []"
  by (simp add: slice_to_def norm_index_def)

lemma iteration_progress:
  assumes "strip rem \<noteq> []" "strip (slice_to rem (fst (iteration_boundary tok config rem))) \<noteq> []"
  shows "length (strip (slice_from rem (fst (iteration_boundary tok config rem)))) < length rem"
proof -
  have "fst (iteration_boundary tok config rem) \<noteq> 0" using assms(2) by auto
  moreover have "0 \<le> fst (iteration_boundary tok config rem)"
    unfolding iteration_boundary_def using find_optimal_boundary_range by blast
  ultimately have "0 < fst (iteration_boundary tok config rem)" by simp
  moreover have "rem \<noteq> []" using assms(1) by auto
  ultimately show ?thesis by (rule slice_from_progress)
qed

lemma chunk_loop_terminates: "\<exists>y. chunk_loop tok config chunks rem cid pos = Some y"
proof (induction "length rem" arbitrary: chunks rem cid pos rule: less_induct)
  case less
  show ?case
  proof (cases "strip rem = [] \<or> strip (slice_to rem (fst (iteration_boundary tok config rem))) = []")
    case True
    then show ?thesis by (subst chunk_loop_unfold) simp
  next
    case False
    then have lt: "length (strip (slice_from rem (fst (iteration_boundary tok config rem)))) < length rem"
      by (intro iteration_progress) auto
    show ?thesis
    proof (cases "iteration_chunk tok config rem cid pos")
      case (Inl e)
      with False show ?thesis by (subst chunk_loop_unfold) simp
    next
      case (Inr chunk)
      from less [OF lt] obtain y where
        "chunk_loop tok config (chunks @ [chunk])
           (strip (slice_from rem (fst (iteration_boundary tok config rem))))
           (cid + 1) (pos + fst (iteration_boundary tok config rem)) = Some y" by blast
      with False Inr show ?thesis by (subst chunk_loop_unfold) simp
    qed
  qed
qed

lemma chunk_loop_rule:
  assumes run: "chunk_loop tok config chunks rem cid pos = Some y"
    and inv: "I chunks rem cid pos"
    and exit: "\<And>chunks rem cid pos. I chunks rem cid pos \<Longrightarrow>
        strip rem = [] \<or> strip (slice_to rem (fst (iteration_boundary tok config rem))) = [] \<Longrightarrow>
        Q (Inr (chunks, rem))"
    and err: "\<And>chunks rem cid pos e. I chunks rem cid pos \<Longrightarrow> strip rem \<noteq> [] \<Longrightarrow>
        strip (slice_to rem (fst (iteration_boundary tok config rem))) \<noteq> [] \<Longrightarrow>
        iteration_chunk tok config rem cid pos = Inl e \<Longrightarrow> Q (Inl e)"
    and step: "\<And>chunks rem cid pos chunk. I chunks rem cid pos \<Longrightarrow> strip rem \<noteq> [] \<Longrightarrow>
        strip (slice_to rem (fst (iteration_boundary tok config rem))) \<noteq> [] \<Longrightarrow>
        iteration_chunk tok config rem cid pos = Inr chunk \<Longrightarrow>
        I (chunks @ [chunk]) (strip (slice_from rem (fst (iteration_boundary tok config rem))))
          (cid + 1) (pos + fst (iteration_boundary tok config rem))"
  shows "Q y"
  using run inv
proof (induction "length rem" arbitrary: chunks rem cid pos rule: less_induct)
  case less
  show ?case
  proof (cases "strip rem = [] \<or> strip (slice_to rem (fst (iteration_boundary tok config rem))) = []")
    case True
    then have "y = Inr (chunks, rem)" using less.prems(1) by (subst (asm) chunk_loop_unfold) simp
    then show ?thesis using exit [OF less.prems(2) True] by simp
  next
    case False
    then have lt: "length (strip (slice_from rem (fst (iteration_boundary tok config rem)))) < length rem"
      by (intro iteration_progress) auto
    have nz: "fst (iteration_boundary tok config rem) \<noteq> 0" using False by auto
    show ?thesis
    proof (cases "iteration_chunk tok config rem cid pos")
      case (Inl e)
      then have "y = Inl e" using less.prems(1) False by (subst (asm) chunk_loop_unfold) simp
      then show ?thesis using err [OF less.prems(2) _ _ Inl] False by simp
    next
      case (Inr chunk)
      then have "chunk_loop tok config (chunks @ [chunk])
           (strip (slice_from rem (fst (iteration_boundary tok config rem))))
           (cid + 1) (pos + fst (iteration_boundary tok config rem)) = Some y"
        using less.prems(1) False nz by (subst (asm) chunk_loop_unfold) simp
      moreover have "I (chunks @ [chunk]) (strip (slice_from rem (fst (iteration_boundary tok config rem))))
          (cid + 1) (pos + fst (iteration_boundary tok config rem))"
        using step [OF less.prems(2) _ _ Inr] False by simp
      ultimately show ?thesis by (rule less.hyps [OF lt])
    qed
  qed
qed

lemma iteration_chunk_Inl:
  "iteration_chunk tok config rem cid pos = Inl e \<Longrightarrow>
     e \<noteq> ValueError ''Input text cannot be empty''"
  unfolding iteration_chunk_def Let_def TextChunk_init_def
  by (auto split: if_splits)

lemma iteration_chunk_Inr:
  assumes "iteration_chunk tok config rem cid pos = Inr chunk"
  shows "chunk_type chunk =
           (if cid = 0 then FIRST
            else if strip (slice_from rem (fst (iteration_boundary tok config rem))) = [] then FINAL
            else MIDDLE)"
    and "chunk_id chunk = cid"
    and "text chunk = strip (slice_to rem (fst (iteration_boundary tok config rem)))"
    and "token_count chunk = count_tokens tok (text chunk)"
    and "boundary_score chunk = snd (iteration_boundary tok config rem)"
    and "overlap_with_previous chunk =
           (if cid > 0 \<and> overlap_tokens config > 0
            then int (length (create_overlap tok (text chunk) (overlap_tokens config))) else 0)"
  using assms unfolding iteration_chunk_def Let_def TextChunk_init_def
  by (auto split: if_splits)

lemma iteration_chunk_ok:
  assumes "0 \<le> cid" "strip (slice_to rem (fst (iteration_boundary tok config rem))) \<noteq> []"
    and "\<And>t. t \<noteq> [] \<Longrightarrow> 0 < tok t"
  shows "\<exists>chunk. iteration_chunk tok config rem cid pos = Inr chunk"
proof -
  let ?t = "strip (slice_to rem (fst (iteration_boundary tok config rem)))"
  have "0 < count_tokens tok ?t" using assms(2,3) by (simp add: count_tokens_def)
  moreover have "strip ?t \<noteq> []" using assms(2) by (simp add: strip_idem)
  moreover have "0 \<le> snd (iteration_boundary tok config rem)"
    "snd (iteration_boundary tok config rem) \<le> 1"
    unfolding iteration_boundary_def using find_optimal_boundary_range by blast+
  ultimately show ?thesis using assms(1)
    unfolding iteration_chunk_def Let_def TextChunk_init_def by simp
qed

lemma chunk_loop_no_input_error:
  assumes "chunk_loop tok config chunks rem cid pos = Some y"
  shows "y \<noteq> Inl (ValueError ''Input text cannot be empty'')"
proof (rule chunk_loop_rule [where I = "\<lambda>_ _ _ _. True", OF assms])
  show True ..
next
  fix e rem cid pos
  assume "iteration_chunk tok config rem cid pos = Inl e"
  then show "Inl e \<noteq> (Inl (ValueError ''Input text cannot be empty'') :: error + TextChunk list \<times> string)"
    by (auto dest: iteration_chunk_Inl)
qed simp_all


lemma chunk_loop_no_error:
  assumes "chunk_loop tok config chunks rem cid pos = Some y"
    and "0 \<le> cid"
    and pos: "\<And>t. t \<noteq> [] \<Longrightarrow> 0 < tok t"
  shows "\<exists>cs r. y = Inr (cs, r)"
proof (rule chunk_loop_rule [where I = "\<lambda>_ _ cid _. 0 \<le> cid"
        and Q = "\<lambda>y. \<exists>cs r. y = Inr (cs, r)", OF assms(1,2)])
  fix chunks rem cid pos' e
  assume "0 \<le> (cid :: int)"
    "strip (slice_to rem (fst (iteration_boundary tok config rem))) \<noteq> []"
    "iteration_chunk tok config rem cid pos' = Inl e"
  with iteration_chunk_ok [of cid rem tok config pos'] pos
  show "\<exists>cs r. (Inl e :: error + TextChunk list \<times> string) = Inr (cs, r)" by auto
qed simp_all

lemma kinds_inv_step:
  assumes inv: "kinds_inv chunks rem" and cid: "cid = int (length chunks)"
    and ne: "strip rem \<noteq> []"
    and ty: "chunk_type chunk = (if cid = 0 then FIRST else if strip rem' = [] then FINAL else MIDDLE)"
  shows "kinds_inv (chunks @ [chunk]) (strip rem')"
proof (cases "chunks = []")
  case True
  then have "map chunk_type (chunks @ [chunk]) = FIRST # replicate 0 MIDDLE"
    using ty cid by simp
  then show ?thesis unfolding kinds_inv_def
    by (intro disjI2 disjI1 exI [of _ 0]) simp
next
  case False
  with inv ne obtain k where k: "map chunk_type chunks = FIRST # replicate k MIDDLE"
    unfolding kinds_inv_def by auto
  have c: "cid \<noteq> 0" using False cid by simp
  show ?thesis
  proof (cases "strip rem' = []")
    case True
    then have "map chunk_type (chunks @ [chunk]) = FIRST # replicate k MIDDLE @ [FINAL]"
      using k ty c by simp
    then show ?thesis unfolding kinds_inv_def using True
      by (intro disjI2 exI [of _ k]) (simp add: strip_idem)
  next
    case f: False
    then have "map chunk_type (chunks @ [chunk]) = FIRST # replicate (Suc k) MIDDLE"
      using k ty c by (simp add: replicate_append_same)
    then show ?thesis unfolding kinds_inv_def using f
      by (intro disjI2 disjI1 exI [of _ "Suc k"]) (simp add: strip_idem)
  qed
qed

lemma chunk_loop_kinds:
  assumes "chunk_loop tok config chunks rem cid pos = Some y"
    and "kinds_inv chunks rem" "cid = int (length chunks)"
  shows "\<forall>cs r. y = Inr (cs, r) \<longrightarrow> kinds_inv cs r"
proof (rule chunk_loop_rule [where I = "\<lambda>chunks rem cid _. kinds_inv chunks rem \<and> cid = int (length chunks)"
        and Q = "\<lambda>y. \<forall>cs r. y = Inr (cs, r) \<longrightarrow> kinds_inv cs r", OF assms(1)])
  show "kinds_inv chunks rem \<and> cid = int (length chunks)" using assms(2,3) by simp
next
  fix chunks rem cid pos' chunk
  assume a: "kinds_inv chunks rem \<and> cid = int (length chunks)" "strip rem \<noteq> []"
    "iteration_chunk tok config rem cid pos' = Inr chunk"
  have "kinds_inv (chunks @ [chunk]) (strip (slice_from rem (fst (iteration_boundary tok config rem))))"
    using a(1,2) iteration_chunk_Inr(1) [OF a(3)]
    by (intro kinds_inv_step [where cid = cid and rem = rem]) (simp_all add: strip_idem)
  then show "kinds_inv (chunks @ [chunk]) (strip (slice_from rem (fst (iteration_boundary tok config rem))))
      \<and> cid + 1 = int (length (chunks @ [chunk]))"
    using a(1) by simp
qed simp_all



section \<open>Configuration errors\<close>

text \<open>
  Claim C6. Constructing a \<open>ChunkingConfig\<close> raises exactly when
  \<open>max_chunk_tokens <= 0\<close>, or \<open>overlap_tokens < 0\<close>, or
  \<open>overlap_tokens >= max_chunk_tokens\<close>; with both values equal to 50 it raises. The
  error is the result of the constructor itself: no chunker, tokenizer or text is involved.
\<close>

theorem ChunkingConfig_init_raises:
  "(\<exists>e. ChunkingConfig_init m ov name = Inl e) = (m \<le> 0 \<or> ov < 0 \<or> ov \<ge> m)
   \<and> ChunkingConfig_init 50 50 name =
       Inl (ValueError ''overlap_tokens must be less than max_chunk_tokens'')"
  by (simp add: ChunkingConfig_init_def)

theorem ChunkingConfig_init_raises_witness:
  "(\<exists>e. ChunkingConfig_init 100 (-1) ''cl100k_base'' = Inl e)
   \<and> \<not> (\<exists>e. ChunkingConfig_init 100 20 ''cl100k_base'' = Inl e)"
  using ChunkingConfig_init_raises [of 100 "-1" "''cl100k_base''"]
    ChunkingConfig_init_raises [of 100 20 "''cl100k_base''"]
  by simp

section \<open>The overlap text\<close>

text \<open>
  Claim C10. For every text and every number of overlap tokens, the string returned by
  \<open>create_overlap\<close> is a contiguous suffix of the text (possibly empty or the whole
  text), so it is never longer than the text. This holds for every tokenizer.
\<close>

theorem create_overlap_suffix:
  "suffix (create_overlap tok txt n) txt \<and> length (create_overlap tok txt n) \<le> length txt"
proof -
  define overlap_text where
    "overlap_text = (if find_token_boundary tok txt n > 0
                     then slice_from txt (- find_token_boundary tok txt n) else [])"
  have ot: "suffix overlap_text txt"
    by (simp add: overlap_text_def suffix_slice_from)
  have "suffix (last (re_split sentence_pattern overlap_text)) txt"
    using suffix_last_re_split ot by (rule suffix_order.trans)
  with ot have "suffix (create_overlap tok txt n) txt"
    unfolding create_overlap_def Let_def overlap_text_def [symmetric] by simp
  then show ?thesis by (auto dest: suffix_length_le)
qed

theorem create_overlap_suffix_witness:
  "create_overlap length ''hello. world'' 8 = ''world''
   \<and> suffix (create_overlap length ''hello. world'' 8) ''hello. world''"
proof -
  have "create_overlap length ''hello. world'' 8 = ''world''" by code_simp
  then show ?thesis using create_overlap_suffix [of length "''hello. world''" 8] by simp
qed

section \<open>The token boundary\<close>

text \<open>
  Claim C2, as amended. Let the token count of the prefixes of the text be monotonically
  non-decreasing in the length of the prefix, and let the target be non-negative. Then
  \<open>find_token_boundary\<close> returns the length of the text when the whole text has at most
  \<open>target\<close> tokens, and otherwise an offset between 0 and the length of the text whose
  prefix has at most \<open>target\<close> tokens and that is maximal with this property.
\<close>

theorem find_token_boundary_maximal:
  assumes "\<And>i j. i \<le> j \<Longrightarrow> j \<le> length s \<Longrightarrow>
             count_tokens tok (take i s) \<le> count_tokens tok (take j s)"
    and "0 \<le> target"
  shows "(count_tokens tok s \<le> target \<longrightarrow> find_token_boundary tok s target = int (length s))
       \<and> (target < count_tokens tok s \<longrightarrow>
            0 \<le> find_token_boundary tok s target
          \<and> find_token_boundary tok s target \<le> int (length s)
          \<and> count_tokens tok (take (nat (find_token_boundary tok s target)) s) \<le> target
          \<and> (\<forall>i \<le> length s. count_tokens tok (take i s) \<le> target
               \<longrightarrow> int i \<le> find_token_boundary tok s target))"
proof (intro conjI impI)
  assume "count_tokens tok s \<le> target"
  then show "find_token_boundary tok s target = int (length s)"
    by (simp add: find_token_boundary_def)
next
  show "0 \<le> find_token_boundary tok s target" "find_token_boundary tok s target \<le> int (length s)"
    using find_token_boundary_bounds [of tok s target] by simp_all
next
  assume gt: "target < count_tokens tok s"
  then have ne: "s \<noteq> []" using assms(2) by (auto simp: count_tokens_def)
  have f: "find_token_boundary tok s target
           = token_boundary_search tok s target 0 (int (length s)) 0"
    using gt ne by (simp add: find_token_boundary_def)
  have m: "count_tokens tok (take (nat (token_boundary_search tok s target 0 (int (length s)) 0)) s)
             \<le> target
         \<and> (\<forall>i \<le> length s. count_tokens tok (take i s) \<le> target
              \<longrightarrow> int i \<le> token_boundary_search tok s target 0 (int (length s)) 0)"
    by (rule token_boundary_search_maximal) (use assms in auto)
  show "count_tokens tok (take (nat (find_token_boundary tok s target)) s) \<le> target"
    using m by (simp add: f)
  show "\<forall>i \<le> length s. count_tokens tok (take i s) \<le> target
          \<longrightarrow> int i \<le> find_token_boundary tok s target"
    using m by (simp add: f)
qed

theorem find_token_boundary_maximal_witness:
  "3 < count_tokens length ''abcde''
   \<and> find_token_boundary length ''abcde'' 3 = 3
   \<and> count_tokens length (take 3 ''abcde'') \<le> 3
   \<and> \<not> count_tokens length (take 4 ''abcde'') \<le> 3"
proof -
  have mono: "\<And>i j. i \<le> j \<Longrightarrow> j \<le> length ''abcde'' \<Longrightarrow>
      count_tokens length (take i ''abcde'') \<le> count_tokens length (take j ''abcde'')"
    by (auto simp: count_tokens_def)
  have gt: "3 < count_tokens length ''abcde''" by (simp add: count_tokens_def)
  have v: "find_token_boundary length ''abcde'' 3 = 3" by code_simp
  have "0 \<le> (3::int)" by simp
  from find_token_boundary_maximal [of "''abcde''" length 3, OF mono this] gt v
  show ?thesis by (simp add: count_tokens_def)
qed

text \<open>
  For a negative target the claim as stated fails: no prefix has a token count
  \<open>\<le> target\<close>, and the search returns its initial \<open>best_pos = 0\<close>, whose prefix has
  0 tokens. The tokenizer here counts characters, so it is monotone on the prefixes of the text.
\<close>

theorem find_token_boundary_negative_target:
  "count_tokens length (take 0 ''a'') \<le> count_tokens length (take 1 ''a'')
   \<and> - 1 < count_tokens length ''a''
   \<and> find_token_boundary length ''a'' (- 1) = 0
   \<and> \<not> count_tokens length (slice_to ''a'' (find_token_boundary length ''a'' (- 1))) \<le> - 1"
  by code_simp

section \<open>The optimal boundary of a text that fits\<close>

text \<open>
  Claim C9, as amended. For every non-empty text and every target, if the token count of
  the text is at most the target then \<open>find_optimal_boundary\<close> returns the pair of the
  length of the text and the score 1.0; for the empty text it returns \<open>(0, 0.0)\<close>,
  whatever the tokenizer and the target are.
\<close>

theorem find_optimal_boundary_fits:
  "(s \<noteq> [] \<longrightarrow> count_tokens tok s \<le> target
      \<longrightarrow> find_optimal_boundary tok s target = (int (length s), 1.0))
   \<and> find_optimal_boundary tok [] target = (0, 0.0)"
  by (simp add: find_optimal_boundary_def)

theorem find_optimal_boundary_fits_witness:
  "find_optimal_boundary length ''abc'' 5 = (3, 1.0)
   \<and> find_optimal_boundary length [] 5 = (0, 0.0)"
  using find_optimal_boundary_fits [of "''abc''" length 5] by (simp add: count_tokens_def)

text \<open>
  For the empty text the claim as stated fails: its token count 0 is within the target,
  and the first guard of \<open>find_optimal_boundary\<close> returns \<open>(0, 0.0)\<close>, not \<open>(0, 1.0)\<close>.
\<close>

theorem find_optimal_boundary_empty_text:
  "count_tokens length [] \<le> 5
   \<and> find_optimal_boundary length [] 5 = (0, 0.0)
   \<and> find_optimal_boundary length [] 5 \<noteq> (int (length ([] :: string)), 1.0)"
  by (simp add: find_optimal_boundary_def count_tokens_def)

section \<open>The classification of a boundary\<close>

text \<open>
  Claim C8. For every text and position, \<open>get_boundary_info\<close> reports the position and
  classifies it by the characters up to five before and five after it, in the order
  paragraph break (score 1.0), sentence end (0.8), line break (0.6), word break (0.4),
  character (0.1); a position at or beyond either end of the text is an edge with score
  0.0 whatever the text holds.
\<close>

theorem get_boundary_info_classifies:
  "(type (get_boundary_info txt pos), score (get_boundary_info txt pos)) = boundary_class_spec txt pos
   \<and> position (get_boundary_info txt pos) = pos"
proof (cases "pos \<le> 0 \<or> pos \<ge> int (length txt)")
  case True
  then show ?thesis by (simp add: get_boundary_info_def boundary_class_spec_def)
next
  case False
  then have cw: "slice txt (max 0 (pos - 5)) pos @ slice txt pos (min (int (length txt)) (pos + 5))
         = context_window txt pos"
    by (intro context_window_slices) auto
  have c1: "contains [newline, newline] (context_window txt pos)
            = has_blank_line (context_window txt pos)"
    by (simp add: contains_pair has_blank_line_iff)
  have c2: "(re_search sentence_space_pattern (context_window txt pos) \<noteq> None)
            = has_sentence_end (context_window txt pos)"
    by (simp only: re_search_sentence_space has_sentence_end_iff)
  have c3: "contains [newline] (context_window txt pos) = (newline \<in> set (context_window txt pos))"
    by (rule contains_single)
  have c4: "contains '' '' (context_window txt pos) = (CHR '' '' \<in> set (context_window txt pos))"
    by (rule contains_single)
  show ?thesis using False
    unfolding get_boundary_info_def boundary_class_spec_def Let_def cw c1 c2 c3 c4
    by (simp split: prod.splits)
qed

theorem get_boundary_info_classifies_witness:
  "type (get_boundary_info ''hello. world'' 6) = ''sentence''
   \<and> score (get_boundary_info ''hello. world'' 6) = 0.8
   \<and> type (get_boundary_info ''hello. world'' 12) = ''edge''"
proof -
  have "boundary_class_spec ''hello. world'' 6 = (''sentence'', 0.8)" by code_simp
  moreover have "boundary_class_spec ''hello. world'' 12 = (''edge'', 0.0)" by code_simp
  ultimately show ?thesis
    using get_boundary_info_classifies [of "''hello. world''" 6]
      get_boundary_info_classifies [of "''hello. world''" 12]
    by simp
qed

section \<open>Blank input\<close>

text \<open>
  Claim C7. \<open>chunk_text\<close>, and the iterator form with it, raises the input error
  (\<open>ValueError("Input text cannot be empty")\<close>) exactly when the text is empty after
  \<open>strip()\<close>; in that case no list of chunks is returned. This holds for every tokenizer
  and configuration: the errors of the \<open>TextChunk\<close> constructor carry other messages.
\<close>

theorem chunk_text_input_error:
  "(chunk_text tok config s = Some (Inl (ValueError ''Input text cannot be empty''))) = (strip s = [])
   \<and> (chunk_text_iterator tok config s = Some (Inl (ValueError ''Input text cannot be empty'')))
       = (strip s = [])
   \<and> (strip s = [] \<longrightarrow> (\<forall>cs. chunk_text tok config s \<noteq> Some (Inr cs)))"
proof -
  have a: "(chunk_text tok config s = Some (Inl (ValueError ''Input text cannot be empty'')))
           = (strip s = [])"
  proof (cases "strip s = []")
    case True
    then show ?thesis by (simp add: chunk_text_def)
  next
    case False
    obtain y where y: "chunk_loop tok config [] s 0 0 = Some y"
      using chunk_loop_terminates by blast
    then have "y \<noteq> Inl (ValueError ''Input text cannot be empty'')"
      by (rule chunk_loop_no_input_error)
    then have "map_sum id fst y \<noteq> Inl (ValueError ''Input text cannot be empty'')"
      by (cases y) auto
    then show ?thesis using False y by (simp add: chunk_text_def)
  qed
  moreover have "strip s = [] \<longrightarrow> (\<forall>cs. chunk_text tok config s \<noteq> Some (Inr cs))"
    by (simp add: chunk_text_def)
  ultimately show ?thesis by (simp add: chunk_text_iterator_def)
qed

theorem chunk_text_input_error_witness:
  "chunk_text length \<lparr>max_chunk_tokens = 100, overlap_tokens = 20, tokenizer_name = ''cl100k_base''\<rparr>
     [CHR '' '', CHR '' '', CHR '' '', newline, CHR '' '', CHR '' '']
   = Some (Inl (ValueError ''Input text cannot be empty''))
   \<and> chunk_text length \<lparr>max_chunk_tokens = 100, overlap_tokens = 20, tokenizer_name = ''cl100k_base''\<rparr>
     ''a b'' \<noteq> Some (Inl (ValueError ''Input text cannot be empty''))"
proof -
  have "strip [CHR '' '', CHR '' '', CHR '' '', newline, CHR '' '', CHR '' ''] = []" by code_simp
  moreover have "strip ''a b'' \<noteq> []" by code_simp
  ultimately show ?thesis
    using chunk_text_input_error [of length
        "\<lparr>max_chunk_tokens = 100, overlap_tokens = 20, tokenizer_name = ''cl100k_base''\<rparr>"
        "[CHR '' '', CHR '' '', CHR '' '', newline, CHR '' '', CHR '' '']"]
      chunk_text_input_error [of length
        "\<lparr>max_chunk_tokens = 100, overlap_tokens = 20, tokenizer_name = ''cl100k_base''\<rparr>" "''a b''"]
    by simp
qed

section \<open>Termination of the loop\<close>



section \<open>A text that fits in one chunk\<close>

text \<open>
  Claim C3, as amended. For every non-blank text whose token count is at most
  \<open>max_chunk_tokens - overlap_tokens\<close> (the effective chunk size), and whose stripped text
  the tokenizer gives at least one token, \<open>chunk_text\<close> returns exactly one chunk; its
  kind is \<open>FIRST\<close>, its boundary score is 1.0 and its overlap with the previous chunk is 0.
\<close>

theorem chunk_text_single_chunk:
  assumes "strip s \<noteq> []"
    and "count_tokens tok s \<le> max_chunk_tokens config - overlap_tokens config"
    and "0 < count_tokens tok (strip s)"
  shows "\<exists>c. chunk_text tok config s = Some (Inr [c])
           \<and> chunk_type c = FIRST \<and> boundary_score c = 1.0 \<and> overlap_with_previous c = 0"
proof -
  have ne: "s \<noteq> []" using assms(1) by auto
  have b: "iteration_boundary tok config s = (int (length s), 1.0)"
    using ne assms(2)
    by (simp add: iteration_boundary_def get_effective_chunk_size_def find_optimal_boundary_def)
  have st: "slice_to s (int (length s)) = s" "slice_from s (int (length s)) = []"
    by (simp_all add: slice_to_def slice_from_def norm_index_def)
  obtain c where c: "iteration_chunk tok config s 0 0 = Inr c"
    using assms(1,3)
    by (simp add: iteration_chunk_def b st Let_def TextChunk_init_def strip_idem)
  have run: "chunk_loop tok config [] s 0 0 = Some (Inr ([c], []))"
    using assms(1) ne c
    by (subst chunk_loop_unfold, simp add: b st, subst chunk_loop_unfold, simp)
  have "chunk_type c = FIRST" "boundary_score c = 1.0" "overlap_with_previous c = 0"
    using iteration_chunk_Inr(1,5,6) [OF c] by (simp_all add: b)
  then show ?thesis using run assms(1) by (simp add: chunk_text_def)
qed

theorem chunk_text_single_chunk_witness:
  "\<exists>c. chunk_text length
        \<lparr>max_chunk_tokens = 100, overlap_tokens = 20, tokenizer_name = ''cl100k_base''\<rparr> '' ab. cde''
      = Some (Inr [c])
      \<and> chunk_type c = FIRST \<and> boundary_score c = 1.0 \<and> overlap_with_previous c = 0"
proof -
  have "strip '' ab. cde'' \<noteq> []" by code_simp
  moreover have "count_tokens length '' ab. cde''
      \<le> max_chunk_tokens \<lparr>max_chunk_tokens = 100, overlap_tokens = 20, tokenizer_name = ''cl100k_base''\<rparr>
        - overlap_tokens \<lparr>max_chunk_tokens = 100, overlap_tokens = 20, tokenizer_name = ''cl100k_base''\<rparr>"
    by (simp add: count_tokens_def)
  moreover have "0 < count_tokens length (strip '' ab. cde'')" by code_simp
  ultimately show ?thesis by (rule chunk_text_single_chunk)
qed

text \<open>
  With the bound \<open>max_chunk_tokens\<close> of the claim as stated, the claim fails: the loop
  compares the token count with the effective chunk size. With one token per character,
  \<open>max_chunk_tokens = 3\<close> and \<open>overlap_tokens = 2\<close>, the text \<open>ab\<close> has 2 tokens, fewer
  than 3, and is split in two chunks; the first has the score 0.5, the second overlaps
  the first by one character.
\<close>

theorem chunk_text_below_max_two_chunks:
  "ChunkingConfig_init 3 2 ''cl100k_base''
     = Inr \<lparr>max_chunk_tokens = 3, overlap_tokens = 2, tokenizer_name = ''cl100k_base''\<rparr>
   \<and> strip ''ab'' \<noteq> []
   \<and> count_tokens length ''ab'' < 3
   \<and> map_option (map_sum id (map (\<lambda>c. (text c, chunk_type c, boundary_score c, overlap_with_previous c))))
       (chunk_text length \<lparr>max_chunk_tokens = 3, overlap_tokens = 2, tokenizer_name = ''cl100k_base''\<rparr> ''ab'')
     = Some (Inr [(''a'', FIRST, 0.5, 0), (''b'', FINAL, 1.0, 1)])"
  by code_simp

section \<open>The kinds of the chunks\<close>

text \<open>
  Claim C5 says that every list returned by \<open>chunk_text\<close> has exactly one \<open>FIRST\<close>
  chunk, the first, and, when it has more than one chunk, exactly one \<open>FINAL\<close> chunk, the
  last. The code does not keep this when the loop ends at an empty extraction. With a
  tokenizer that gives the character \<open>X\<close> two tokens and every other character one, and
  \<open>max_chunk_tokens = 1\<close>, the text \<open>aaX\<close> gives the chunks \<open>a\<close> and \<open>a\<close>, the second of
  kind \<open>MIDDLE\<close> because \<open>X\<close> remains, and then the boundary 0 on \<open>X\<close>: the list ends in
  \<open>MIDDLE\<close>, \<open>X\<close> is in no chunk, and \<open>validate_chunks\<close> of the same class reports that
  the last chunk should be \<open>FINAL\<close>. With one token per character, the non-blank text
  \<open>"  ab"\<close> gives the boundary 1 on the text that the first iteration has not stripped;
  the extracted text is blank and the list returned is empty, without a \<open>FIRST\<close> chunk.
\<close>

theorem chunk_text_early_break_kinds:
  "ChunkingConfig_init 1 0 ''cl100k_base''
     = Inr \<lparr>max_chunk_tokens = 1, overlap_tokens = 0, tokenizer_name = ''cl100k_base''\<rparr>
   \<and> map_option (map_sum id (map (\<lambda>c. (text c, chunk_type c))))
       (chunk_text (\<lambda>s. length s + length (filter (\<lambda>c. c = CHR ''X'') s))
          \<lparr>max_chunk_tokens = 1, overlap_tokens = 0, tokenizer_name = ''cl100k_base''\<rparr> ''aaX'')
     = Some (Inr [(''a'', FIRST), (''a'', MIDDLE)])
   \<and> map_option (map_sum id
         (validate_chunks \<lparr>max_chunk_tokens = 1, overlap_tokens = 0, tokenizer_name = ''cl100k_base''\<rparr>))
       (chunk_text (\<lambda>s. length s + length (filter (\<lambda>c. c = CHR ''X'') s))
          \<lparr>max_chunk_tokens = 1, overlap_tokens = 0, tokenizer_name = ''cl100k_base''\<rparr> ''aaX'')
     = Some (Inr [LastNotFINAL MIDDLE])
   \<and> strip ''  ab'' \<noteq> []
   \<and> chunk_text length \<lparr>max_chunk_tokens = 1, overlap_tokens = 0, tokenizer_name = ''cl100k_base''\<rparr>
       ''  ab'' = Some (Inr [])"
  by code_simp

text \<open>
  What the loop does keep: the first chunk, if there is one, is \<open>FIRST\<close> and no other chunk
  is; a \<open>FINAL\<close> chunk can only be the last one, and every chunk between the first and the
  last is \<open>MIDDLE\<close>. When the loop ended because no text remained, the list is not empty,
  and if it has more than one chunk its last chunk is \<open>FINAL\<close>.
\<close>

lemma chunk_text_kinds:
  assumes "chunk_text tok config s = Some (Inr cs)"
  shows "(\<exists>k. map chunk_type cs = [] \<or> map chunk_type cs = FIRST # replicate k MIDDLE
             \<or> map chunk_type cs = FIRST # replicate k MIDDLE @ [FINAL])
       \<and> (\<forall>r. chunk_loop tok config [] s 0 0 = Some (Inr (cs, r)) \<and> strip r = [] \<longrightarrow>
             cs \<noteq> [] \<and> chunk_type (hd cs) = FIRST
             \<and> (1 < length cs \<longrightarrow> chunk_type (last cs) = FINAL))"
proof -
  have ne: "strip s \<noteq> []" using assms by (auto simp: chunk_text_def split: if_splits)
  then obtain y where y: "chunk_loop tok config [] s 0 0 = Some y" "map_sum id fst y = Inr cs"
    using assms by (auto simp: chunk_text_def)
  then obtain r0 where r0: "y = Inr (cs, r0)" by (cases y) auto
  have inv: "kinds_inv cs r" if "chunk_loop tok config [] s 0 0 = Some (Inr (cs, r))" for r
    using chunk_loop_kinds [OF that, of ] ne by (simp add: kinds_inv_def)
  have "kinds_inv cs r0" using y(1) r0 by (intro inv) simp
  then have 1: "\<exists>k. map chunk_type cs = [] \<or> map chunk_type cs = FIRST # replicate k MIDDLE
             \<or> map chunk_type cs = FIRST # replicate k MIDDLE @ [FINAL]"
    unfolding kinds_inv_def by auto
  have 2: "cs \<noteq> [] \<and> chunk_type (hd cs) = FIRST \<and> (1 < length cs \<longrightarrow> chunk_type (last cs) = FINAL)"
    if "chunk_loop tok config [] s 0 0 = Some (Inr (cs, r))" "strip r = []" for r
  proof -
    from inv [OF that(1)] that(2)
    consider "map chunk_type cs = [FIRST]"
      | k where "map chunk_type cs = FIRST # replicate k MIDDLE @ [FINAL]"
      unfolding kinds_inv_def by auto
    then show ?thesis
    proof cases
      case 1
      then obtain c where "cs = [c]" "chunk_type c = FIRST" by auto
      then show ?thesis by simp
    next
      case (2 k)
      then have "cs \<noteq> []" by auto
      moreover from this have "chunk_type (hd cs) = hd (map chunk_type cs)"
        "chunk_type (last cs) = last (map chunk_type cs)"
        by (simp_all add: hd_map last_map)
      ultimately show ?thesis using 2 by simp
    qed
  qed
  show ?thesis using 1 2 by blast
qed

section \<open>The token limit of a chunk\<close>

text \<open>
  Claim C1 says that every chunk of \<open>chunk_text\<close> has \<open>token_count <= max_chunk_tokens\<close>.
  The code does not keep this limit. With one token per character, \<open>max_chunk_tokens = 2\<close>
  and \<open>overlap_tokens = 0\<close>, the boundary search of a 22-character text finds the sentence
  end at offset 4, whose prefix of 4 tokens is within the target 2 plus the tolerance 50,
  and the first chunk \<open>ab.\<close> has 3 tokens. \<open>validate_chunks\<close> of the same class reports
  this chunk as exceeding the token limit.
\<close>

theorem chunk_text_exceeds_max_chunk_tokens:
  "ChunkingConfig_init 2 0 ''cl100k_base''
     = Inr \<lparr>max_chunk_tokens = 2, overlap_tokens = 0, tokenizer_name = ''cl100k_base''\<rparr>
   \<and> map_option (map_sum id (map (\<lambda>c. (text c, token_count c))))
       (chunk_text length \<lparr>max_chunk_tokens = 2, overlap_tokens = 0, tokenizer_name = ''cl100k_base''\<rparr>
          ''ab. cdefghijklmnopqrst'')
     = Some (Inr [(''ab.'', 3), (''cd'', 2), (''ef'', 2), (''gh'', 2), (''ij'', 2), (''kl'', 2),
                  (''mn'', 2), (''op'', 2), (''qr'', 2), (''st'', 2)])
   \<and> map_option (map_sum id
         (validate_chunks \<lparr>max_chunk_tokens = 2, overlap_tokens = 0, tokenizer_name = ''cl100k_base''\<rparr>))
       (chunk_text length \<lparr>max_chunk_tokens = 2, overlap_tokens = 0, tokenizer_name = ''cl100k_base''\<rparr>
          ''ab. cdefghijklmnopqrst'')
     = Some (Inr [ExceedsTokenLimit 0 3 2])"
  by code_simp

end
